theory Spec2Isabelle
  imports Main "HOL-Library.Word" "HOL-Library.Sublist" "HOL-Library.Extended_Nat"
begin

section \<open>Buffers\<close>

text \<open>
  Both scripts work on Node \<^verbatim>\<open>Buffer\<close> values: sequences of bytes. A buffer is a list
  of 8-bit words. \<^verbatim>\<open>Buffer.from(s, 'latin1')\<close> turns every character of \<open>s\<close> into the
  byte of its code; the string arguments of \<^verbatim>\<open>indexOf\<close> are encoded as UTF-8, which is
  the same bytes for the ASCII literals the scripts use. \<^verbatim>\<open>buf.toString('latin1')\<close> is
  the way back: one character per byte.
\<close>

type_synonym byte = "8 word"
type_synonym buffer = "byte list"

definition bytes_of :: "string \<Rightarrow> buffer" where
  "bytes_of s = map of_char s"

definition latin1 :: "buffer \<Rightarrow> string" where
  "latin1 b = map (\<lambda>x. char_of (unat x)) b"

text \<open>
  \<^verbatim>\<open>buf[i]\<close>: the byte at \<open>i\<close>, or \<^verbatim>\<open>undefined\<close> (here \<open>None\<close>) when \<open>i\<close> is not an index
  of the buffer.
\<close>

definition byte_at :: "buffer \<Rightarrow> nat \<Rightarrow> byte option" where
  "byte_at b i = (if i < length b then Some (b ! i) else None)"

text \<open>
  \<^verbatim>\<open>buf.subarray(start, end)\<close>: a negative bound counts from the end of the buffer, both
  bounds are clamped to the buffer, and a range that ends before it starts is empty.
\<close>

definition clamp_index :: "int \<Rightarrow> int \<Rightarrow> int" where
  "clamp_index len i = (if i < 0 then max (len + i) 0 else min i len)"

definition subarray :: "buffer \<Rightarrow> int \<Rightarrow> int \<Rightarrow> buffer" where
  "subarray b start fin =
     (let len = int (length b);
          s = clamp_index len start;
          e = clamp_index len fin
      in take (nat (e - s)) (drop (nat s) b))"

subsection \<open>Searching\<close>

text \<open>
  \<open>first_match val b\<close> is the least position at which \<open>val\<close> occurs in \<open>b\<close>, the scan that
  \<^verbatim>\<open>indexOf\<close> runs from its starting offset.
\<close>

primrec first_match :: "'a list \<Rightarrow> 'a list \<Rightarrow> nat option" where
  "first_match val [] = (if val = [] then Some 0 else None)"
| "first_match val (x # xs) =
     (if prefix val (x # xs) then Some 0 else map_option Suc (first_match val xs))"

text \<open>
  \<^verbatim>\<open>buf.indexOf(value, byteOffset)\<close>, as Node computes it: the offset is first normalised
  (a negative one counts from the end, one before the start means the start; an offset at
  which the value no longer fits leaves no possible match), then the buffer is scanned
  forwards. The answer is the position of the first occurrence at or after the offset, or
  \<open>-1\<close>. An omitted offset is \<open>0\<close>.
\<close>

definition indexOfOffset :: "int \<Rightarrow> int \<Rightarrow> int \<Rightarrow> int" where
  "indexOfOffset len byteOffset needle_len =
     (if byteOffset < 0 then
        (if byteOffset + len \<ge> 0 then len + byteOffset else 0)
      else if byteOffset + needle_len \<le> len then byteOffset
      else if needle_len = 0 then len
      else -1)"

definition indexOf :: "buffer \<Rightarrow> buffer \<Rightarrow> int \<Rightarrow> int" where
  "indexOf b val byteOffset =
     (let len = int (length b);
          needle_len = int (length val);
          opt_offset = indexOfOffset len byteOffset needle_len
      in if needle_len = 0 then opt_offset
         else if len = 0 then -1
         else if opt_offset \<le> -1 then -1
         else if needle_len + opt_offset > len then -1
         else (case first_match val (drop (nat opt_offset) b) of
                 None \<Rightarrow> -1
               | Some i \<Rightarrow> opt_offset + int i))"

section \<open>The extraction script\<close>

text \<open>
  The script \<^verbatim>\<open>final_extract.js\<close> reads \<^verbatim>\<open>modified.pdf\<close>, runs top to bottom and ends in
  one of three ways: it runs to its last line, it calls \<^verbatim>\<open>process.exit(1)\<close>, or an
  exception nobody catches ends it. A run is described by the files it wrote, the headline
  it printed for the branch it took, and the way it ended. The inflater of zlib is outside
  the repository: it is the parameter \<open>inflateSync\<close>, which gives the decompressed bytes or
  the message of the error it throws.
\<close>

datatype js_error = Error string | TypeError string

datatype ending = Completed | Exit nat | Uncaught js_error

record run =
  written :: "(string \<times> buffer) list"
  report :: string
  ending :: ending

definition obj111Start :: "buffer \<Rightarrow> int" where
  "obj111Start pdfData = indexOf pdfData (bytes_of ''111 0 obj'') 0"

definition streamStart :: "buffer \<Rightarrow> int" where
  "streamStart pdfData = indexOf pdfData (bytes_of ''stream\<newline>'') (obj111Start pdfData) + 7"

definition endstreamPos :: "buffer \<Rightarrow> int" where
  "endstreamPos pdfData = indexOf pdfData (bytes_of ''\<newline>endstream'') (streamStart pdfData)"

text \<open>Steps 5 to 8 of the script, on the isolated stream bytes.\<close>

definition recover :: "(buffer \<Rightarrow> string + buffer) \<Rightarrow> buffer \<Rightarrow> run" where
  "recover inflateSync streamData =
     (if byte_at streamData 0 = Some 0x78 then
        (case inflateSync streamData of
           Inr decompressed \<Rightarrow>
             (if byte_at decompressed 0 = Some 0xFF \<and> byte_at decompressed 1 = Some 0xD8
              then \<lparr>written = [(''final_recovered.jpg'', decompressed)],
                    report = ''SUCCESS! Hidden image successfully extracted!'',
                    ending = Completed\<rparr>
              else \<lparr>written = [(''mystery_data.bin'', decompressed)],
                    report = ''Recovered data is not a JPEG image'',
                    ending = Completed\<rparr>)
         | Inl message \<Rightarrow>
             \<lparr>written = [(''raw_stream.bin'', streamData)],
              report = ''Decompression failed: '' @ message,
              ending = Completed\<rparr>)
      else
        (case byte_at streamData 0 of
           None \<Rightarrow>
             \<lparr>written = [],
              report = ''Data is not zlib compressed'',
              ending = Uncaught (TypeError
                ''Cannot read properties of undefined (reading 'toString')'')\<rparr>
         | Some b \<Rightarrow>
             \<lparr>written = [(''raw_stream.bin'', streamData)],
              report = ''Data is not zlib compressed'',
              ending = Completed\<rparr>))"

definition final_extract :: "(buffer \<Rightarrow> string + buffer) \<Rightarrow> buffer \<Rightarrow> run" where
  "final_extract inflateSync pdfData =
     (if obj111Start pdfData = -1 \<or> streamStart pdfData = -1 \<or> endstreamPos pdfData = -1
      then \<lparr>written = [], report = ''Could not find Object 111 boundaries'', ending = Exit 1\<rparr>
      else recover inflateSync
             (subarray pdfData (streamStart pdfData) (endstreamPos pdfData)))"

section \<open>Numbers\<close>

text \<open>
  A JavaScript Number is an IEEE double. The embedder's numbers are non-negative integers
  or \<^verbatim>\<open>Infinity\<close>, so they are modelled as \<open>enat\<close>: \<open>enat n\<close> for a double whose value
  is the integer \<open>n\<close>, and \<open>\<infinity>\<close>. \<open>to_double n\<close> is the Number for a non-negative integer:
  integers below \<open>2 ^ 53\<close> are doubles; a larger one is rounded to 53 significant bits,
  to nearest and to even at a tie, and becomes \<^verbatim>\<open>Infinity\<close> from \<open>2 ^ 1024\<close> on.
\<close>

fun bit_length :: "nat \<Rightarrow> nat" where
  "bit_length n = (if n = 0 then 0 else Suc (bit_length (n div 2)))"

declare bit_length.simps [simp del]

definition to_double :: "nat \<Rightarrow> enat" where
  "to_double n =
     (if n < 2 ^ 53 then enat n
      else
        (let e = bit_length n - 53;
             q = n div 2 ^ e;
             r = n mod 2 ^ e;
             q' = (if 2 * r > 2 ^ e \<or> (2 * r = 2 ^ e \<and> odd q) then q + 1 else q);
             v = q' * 2 ^ e
         in if v \<ge> 2 ^ 1024 then \<infinity> else enat v))"

text \<open>\<^verbatim>\<open>x + 1\<close> on such a Number: the exact sum, rounded.\<close>

definition plus_one :: "enat \<Rightarrow> enat" where
  "plus_one x = (case x of enat n \<Rightarrow> to_double (n + 1) | \<infinity> \<Rightarrow> \<infinity>)"

text \<open>
  \<^verbatim>\<open>parseInt(s, 10)\<close> on a non-empty run of decimal digits, the only strings the
  embedder passes to it: the Number for the integer the digits write. (The language lets
  an implementation read the digits after the twentieth as zeros; V8 rounds the exact
  value, and so does the model.)
\<close>

definition is_digit :: "char \<Rightarrow> bool" where
  "is_digit c = (48 \<le> (of_char c :: nat) \<and> (of_char c :: nat) \<le> 57)"

definition digit_value :: "char \<Rightarrow> nat" where
  "digit_value c = of_char c - 48"

definition decimal_value :: "string \<Rightarrow> nat" where
  "decimal_value ds = foldl (\<lambda>a c. 10 * a + digit_value c) 0 ds"

definition parseInt10 :: "string \<Rightarrow> enat" where
  "parseInt10 ds = to_double (decimal_value ds)"

text \<open>
  A Number inside a template literal is written by \<^verbatim>\<open>Number::toString\<close>: in decimal
  digits below \<open>10 ^ 21\<close>, as \<^verbatim>\<open>Infinity\<close>, and otherwise in exponent notation, which is
  left as the parameter \<open>expo\<close>. The length of a buffer is always an integer that is
  written in plain decimal digits.
\<close>

fun decimal :: "nat \<Rightarrow> string" where
  "decimal n =
     (if n < 10 then [char_of (48 + n)]
      else decimal (n div 10) @ [char_of (48 + n mod 10)])"

declare decimal.simps [simp del]

definition number_toString :: "(nat \<Rightarrow> string) \<Rightarrow> enat \<Rightarrow> string" where
  "number_toString expo x =
     (case x of
        enat n \<Rightarrow> (if n < 10 ^ 21 then decimal n else expo n)
      | \<infinity> \<Rightarrow> ''Infinity'')"

section \<open>The embedding script\<close>

subsection \<open>The highest object number\<close>

text \<open>
  The regular expression \<^verbatim>\<open>/(\d+) 0 obj/g\<close> at one position of the text: \<^verbatim>\<open>\d+\<close> takes
  the whole run of digits that starts there; giving digits back cannot help, because the
  next character would then be a digit where a space is required. A match gives the
  digits of group 1 and the length of the matched text.
\<close>

definition match_here :: "string \<Rightarrow> (string \<times> nat) option" where
  "match_here s =
     (let ds = takeWhile is_digit s in
      if ds \<noteq> [] \<and> prefix '' 0 obj'' (dropWhile is_digit s)
      then Some (ds, length ds + 6) else None)"

text \<open>
  \<^verbatim>\<open>objRegex.exec(text)\<close> tries the positions from \<^verbatim>\<open>lastIndex\<close> on, one after the
  other, and stops at the first that matches; it answers with group 1 and the new
  \<^verbatim>\<open>lastIndex\<close>, the end of the match, or with \<^verbatim>\<open>null\<close> (here \<open>None\<close>).
\<close>

primrec scan :: "string \<Rightarrow> (string \<times> nat) option" where
  "scan [] = None"
| "scan (c # cs) =
     (case match_here (c # cs) of
        Some m \<Rightarrow> Some m
      | None \<Rightarrow> map_option (\<lambda>(ds, n). (ds, Suc n)) (scan cs))"

definition objRegex_exec :: "string \<Rightarrow> nat \<Rightarrow> (string \<times> nat) option" where
  "objRegex_exec text lastIndex =
     map_option (\<lambda>(ds, n). (ds, lastIndex + n)) (scan (drop lastIndex text))"

text \<open>The \<^verbatim>\<open>while\<close> loop of step 3, with its two variables.\<close>

function maxObjNum_loop :: "string \<Rightarrow> nat \<Rightarrow> enat \<Rightarrow> enat" where
  "maxObjNum_loop text lastIndex maxObjNum =
     (case objRegex_exec text lastIndex of
        None \<Rightarrow> maxObjNum
      | Some (ds, lastIndex') \<Rightarrow>
          (let objNum = parseInt10 ds in
           maxObjNum_loop text lastIndex' (if objNum > maxObjNum then objNum else maxObjNum)))"
  by pat_completeness auto
termination
proof (relation "measure (\<lambda>(text, lastIndex, maxObjNum). Suc (length text) - lastIndex)")
  show "wf (measure (\<lambda>(text, lastIndex, maxObjNum). Suc (length text) - lastIndex))"
    by simp
next
  fix t :: string and lastIndex :: nat and maxObjNum :: enat
    and x2 :: "string \<times> nat" and ds lastIndex' objNum
  assume ex: "objRegex_exec t lastIndex = Some x2" and x2: "(ds, lastIndex') = x2"
  have scan_bounds: "0 < n \<and> n \<le> length s" if "scan s = Some (d, n)" for s d n
    using that
  proof (induction s arbitrary: n)
    case Nil
    then show ?case by simp
  next
    case (Cons c cs)
    show ?case
    proof (cases "match_here (c # cs)")
      case None
      with Cons.prems obtain k where "scan cs = Some (d, k)" "n = Suc k"
        by auto
      with Cons.IH show ?thesis by auto
    next
      case (Some m)
      with Cons.prems have m: "match_here (c # cs) = Some (d, n)" by simp
      then have n: "n = length (takeWhile is_digit (c # cs)) + 6"
        and p: "prefix '' 0 obj'' (dropWhile is_digit (c # cs))"
        by (auto simp: match_here_def Let_def split: if_splits)
      from p have "6 \<le> length (dropWhile is_digit (c # cs))"
        by (auto dest: prefix_length_le)
      moreover have "length (takeWhile is_digit (c # cs)) + length (dropWhile is_digit (c # cs))
                       = length (c # cs)"
        by (metis length_append takeWhile_dropWhile_id)
      ultimately show ?thesis using n by linarith
    qed
  qed
  from ex x2 obtain n where "scan (drop lastIndex t) = Some (ds, n)" "lastIndex' = lastIndex + n"
    by (auto simp: objRegex_exec_def)
  with scan_bounds [of "drop lastIndex t" ds n]
  have "lastIndex < lastIndex'" "lastIndex' \<le> length t" by auto
  then show "((t, lastIndex', if objNum > maxObjNum then objNum else maxObjNum),
              (t, lastIndex, maxObjNum))
             \<in> measure (\<lambda>(text, lastIndex, maxObjNum). Suc (length text) - lastIndex)"
    by simp
qed

declare maxObjNum_loop.simps [simp del]

definition findHighestObjectNumber :: "buffer \<Rightarrow> enat" where
  "findHighestObjectNumber pdfData = maxObjNum_loop (latin1 pdfData) 0 0"

definition newObjNum :: "buffer \<Rightarrow> enat" where
  "newObjNum pdfData = plus_one (findHighestObjectNumber pdfData)"

text \<open>
  For comparison with the loop, the matches of the pattern as the specification words
  them: all non-overlapping matches in the text, from left to right, each given by its
  run of digits. The counter is the number of characters still covered by the match
  found last.
\<close>

fun matches_from :: "nat \<Rightarrow> string \<Rightarrow> string list" where
  "matches_from k [] = []"
| "matches_from (Suc k) (c # cs) = matches_from k cs"
| "matches_from 0 (c # cs) =
     (case match_here (c # cs) of
        Some (ds, n) \<Rightarrow> ds # matches_from (n - 1) cs
      | None \<Rightarrow> matches_from 0 cs)"

definition pattern_matches :: "buffer \<Rightarrow> string list" where
  "pattern_matches pdfData = matches_from 0 (latin1 pdfData)"

subsection \<open>Building and splicing the object\<close>

definition objHeader :: "(nat \<Rightarrow> string) \<Rightarrow> enat \<Rightarrow> buffer \<Rightarrow> string" where
  "objHeader expo num compressedImage =
     number_toString expo num @ '' 0 obj\<newline><< /Length ''
       @ decimal (length compressedImage) @ '' /Filter /FlateDecode >>\<newline>stream\<newline>''"

definition objFooter :: string where
  "objFooter = ''\<newline>endstream\<newline>endobj\<newline>''"

definition newObject :: "(nat \<Rightarrow> string) \<Rightarrow> enat \<Rightarrow> buffer \<Rightarrow> buffer" where
  "newObject expo num compressedImage =
     bytes_of (objHeader expo num compressedImage) @ compressedImage @ bytes_of objFooter"

definition newPdfData :: "buffer \<Rightarrow> buffer \<Rightarrow> int \<Rightarrow> buffer" where
  "newPdfData pdfData object xrefPos =
     subarray pdfData 0 xrefPos @ object @ subarray pdfData xrefPos (int (length pdfData))"

text \<open>
  \<^verbatim>\<open>embedImageInPDF\<close> on the bytes of its two input files. The deflater of zlib is the
  parameter \<open>deflateSync\<close>. The function throws when there is no \<^verbatim>\<open>xref\<close>; otherwise it
  writes the new buffer to the output path and returns the object number: the result
  is the error, or the bytes written together with the number returned.
\<close>

definition embedImageInPDF ::
    "(buffer \<Rightarrow> buffer) \<Rightarrow> (nat \<Rightarrow> string) \<Rightarrow> buffer \<Rightarrow> buffer \<Rightarrow> js_error + buffer \<times> enat" where
  "embedImageInPDF deflateSync expo pdfData imageData =
     (let compressedImage = deflateSync imageData;
          object = newObject expo (newObjNum pdfData) compressedImage;
          xrefPos = indexOf pdfData (bytes_of ''xref'') 0
      in if xrefPos = -1 then Inl (Error ''XREF table not found - invalid PDF format'')
         else Inr (newPdfData pdfData object xrefPos, newObjNum pdfData))"

text \<open>
  The two scripts one after the other: \<^verbatim>\<open>index.js\<close> writes \<^verbatim>\<open>modified.pdf\<close>, which
  \<^verbatim>\<open>final_extract.js\<close> then reads.
\<close>

definition embed_then_extract ::
    "(buffer \<Rightarrow> buffer) \<Rightarrow> (nat \<Rightarrow> string) \<Rightarrow> (buffer \<Rightarrow> string + buffer)
       \<Rightarrow> buffer \<Rightarrow> buffer \<Rightarrow> js_error + run" where
  "embed_then_extract deflateSync expo inflateSync pdfData imageData =
     (case embedImageInPDF deflateSync expo pdfData imageData of
        Inl err \<Rightarrow> Inl err
      | Inr (modified, num) \<Rightarrow> Inr (final_extract inflateSync modified))"

section \<open>Sample files\<close>

text \<open>
  Two small PDF files with a classic cross-reference table (one whose highest object is
  2, one whose highest object is 110), a file without the keyword \<^verbatim>\<open>xref\<close>, a file that
  declares an object with the number \<open>2 ^ 53\<close>, a four-byte JPEG, and what zlib does on the
  samples. The deflater is only ever applied to the JPEG, which it compresses to the
  twelve bytes of \<open>sample_zlib\<close>; the inflater gives the JPEG back for these bytes, and
  its only other input below is cut short, which zlib reports as an unexpected end of
  file. No sample reaches the exponent notation, which begins with \<^verbatim>\<open>1e+21\<close>.
\<close>

definition sample_pdf :: buffer where
  "sample_pdf = bytes_of
     ''%PDF-1.4\<newline>1 0 obj\<newline><< /Type /Catalog /Pages 2 0 R >>\<newline>endobj\<newline>2 0 obj\<newline><< /Type /Pages /Kids [] /Count 0 >>\<newline>endobj\<newline>xref\<newline>0 3\<newline>0000000000 65535 f \<newline>0000000009 00000 n \<newline>0000000058 00000 n \<newline>trailer\<newline><< /Size 3 /Root 1 0 R >>\<newline>startxref\<newline>110\<newline>%%EOF\<newline>''"

definition sample_pdf_110 :: buffer where
  "sample_pdf_110 = bytes_of
     ''%PDF-1.4\<newline>1 0 obj\<newline><< /Type /Catalog /Pages 2 0 R >>\<newline>endobj\<newline>2 0 obj\<newline><< /Type /Pages /Kids [] /Count 0 >>\<newline>endobj\<newline>110 0 obj\<newline><< >>\<newline>endobj\<newline>xref\<newline>0 3\<newline>0000000000 65535 f \<newline>0000000009 00000 n \<newline>0000000058 00000 n \<newline>110 1\<newline>0000000110 00000 n \<newline>trailer\<newline><< /Size 111 /Root 1 0 R >>\<newline>startxref\<newline>133\<newline>%%EOF\<newline>''"

definition no_xref_pdf :: buffer where
  "no_xref_pdf = bytes_of ''%PDF-1.4\<newline>1 0 obj\<newline><< >>\<newline>endobj\<newline>trailer\<newline><< /Size 2 /Root 1 0 R >>\<newline>%%EOF\<newline>''"

definition huge_number_pdf :: buffer where
  "huge_number_pdf = bytes_of ''%PDF-1.4\<newline>9007199254740992 0 obj\<newline><< >>\<newline>endobj\<newline>xref\<newline>''"

definition sample_jpeg :: buffer where
  "sample_jpeg = [0xFF, 0xD8, 0xFF, 0xD9]"

definition sample_zlib :: buffer where
  "sample_zlib = [0x78, 0x9C, 0xFB, 0x7F, 0xE3, 0xFF, 0x4D, 0x00, 0x09, 0x5F, 0x03, 0xB0]"

definition sample_deflateSync :: "buffer \<Rightarrow> buffer" where
  "sample_deflateSync imageData = sample_zlib"

definition sample_inflateSync :: "buffer \<Rightarrow> string + buffer" where
  "sample_inflateSync streamData =
     (if streamData = sample_zlib then Inr sample_jpeg else Inl ''unexpected end of file'')"

definition sample_expo :: "nat \<Rightarrow> string" where
  "sample_expo n = ''1e+21''"

text \<open>
  What \<^verbatim>\<open>index.js\<close> writes for the first sample file and the sample image: the object
  gets the number 3 and goes in front of the table at offset 110.
\<close>

definition sample_modified :: buffer where
  "sample_modified =
     take 110 sample_pdf @ newObject sample_expo (enat 3) sample_zlib @ drop 110 sample_pdf"

text \<open>
  Three small buffers for the extraction script: an object 111 whose stream is the single
  byte \<open>0x78\<close>, one whose stream is empty, and one where no line feed follows the
  keyword \<^verbatim>\<open>stream\<close>.
\<close>

definition truncated_pdf :: buffer where
  "truncated_pdf = bytes_of ''111 0 obj\<newline><< /Length 1 /Filter /FlateDecode >>\<newline>stream\<newline>x\<newline>endstream\<newline>endobj\<newline>''"

definition empty_stream_pdf :: buffer where
  "empty_stream_pdf = bytes_of ''111 0 obj\<newline><< /Length 0 >>\<newline>stream\<newline>\<newline>endstream\<newline>endobj\<newline>''"

definition no_stream_marker_pdf :: buffer where
  "no_stream_marker_pdf = bytes_of ''111 0 obj\<newline><< >> stream x\<newline>endstream endobj''"

section \<open>Facts about buffers and searching\<close>

lemma unat_of_char: "unat (of_char c :: 8 word) = of_char c"
proof -
  have "(of_char c :: 8 word) = of_nat (of_char c)" by (simp add: of_nat_of_char)
  then have "unat (of_char c :: 8 word) = (of_char c :: nat) mod 2 ^ 8"
    by (simp only: unat_of_nat) simp
  then show ?thesis by simp
qed

lemma latin1_bytes_of: "latin1 (bytes_of s) = s"
  by (induction s) (simp_all add: latin1_def bytes_of_def unat_of_char)

lemma first_match_None_iff: "first_match val b = None \<longleftrightarrow> \<not> sublist val b"
  by (induction b) (auto simp: sublist_Cons_right)

lemma first_match_SomeD:
  "first_match val b = Some i \<Longrightarrow>
     i \<le> length b \<and> prefix val (drop i b) \<and> (\<forall>j<i. \<not> prefix val (drop j b))"
proof (induction b arbitrary: i)
  case Nil
  then show ?case by (auto split: if_splits)
next
  case (Cons x xs)
  show ?case
  proof (cases "prefix val (x # xs)")
    case True
    with Cons.prems show ?thesis by simp
  next
    case False
    with Cons.prems obtain k where k: "first_match val xs = Some k" "i = Suc k"
      by auto
    from Cons.IH [OF k(1)] False k(2) show ?thesis
      by (auto simp: less_Suc_eq_0_disj)
  qed
qed

lemma first_match_SomeI:
  "prefix val (drop i b) \<Longrightarrow> i \<le> length b \<Longrightarrow> \<forall>j<i. \<not> prefix val (drop j b) \<Longrightarrow>
     first_match val b = Some i"
proof (induction b arbitrary: i)
  case Nil
  then show ?case by auto
next
  case (Cons x xs)
  show ?case
  proof (cases i)
    case 0
    with Cons.prems show ?thesis by simp
  next
    case (Suc k)
    with Cons.prems have "\<not> prefix val (x # xs)" by (metis drop0 zero_less_Suc)
    moreover have "first_match val xs = Some k"
      using Cons.prems Suc by (intro Cons.IH) auto
    ultimately show ?thesis using Suc by simp
  qed
qed

lemma first_match_short: "length b < length val \<Longrightarrow> first_match val b = None"
  by (auto simp: first_match_None_iff dest: sublist_length_le)

lemma indexOf_from:
  assumes "val \<noteq> []" "0 \<le> k"
  shows "indexOf b val k =
           (case first_match val (drop (nat k) b) of None \<Rightarrow> -1 | Some i \<Rightarrow> k + int i)"
proof (cases "k + int (length val) \<le> int (length b)")
  case True
  with assms show ?thesis
    by (auto simp: indexOf_def indexOfOffset_def Let_def)
next
  case False
  from assms(1) have lv: "0 < length val" by simp
  from False assms(2) lv have "length b - nat k < length val" by linarith
  then have "first_match val (drop (nat k) b) = None"
    by (intro first_match_short) simp
  with False assms show ?thesis
    by (auto simp: indexOf_def indexOfOffset_def Let_def)
qed

lemma indexOf_before_start:
  assumes "2 \<le> length val"
  shows "indexOf b val (-1) = -1"
  using assms by (auto simp: indexOf_def indexOfOffset_def Let_def)

lemma indexOf_ge: "val \<noteq> [] \<Longrightarrow> -1 \<le> indexOf b val k"
  by (auto simp: indexOf_def indexOfOffset_def Let_def split: option.splits)

lemma indexOf_absent:
  assumes "val \<noteq> []" "\<not> sublist val b"
  shows "indexOf b val 0 = -1"
proof -
  from assms(2) have "first_match val b = None" by (simp add: first_match_None_iff)
  with assms(1) show ?thesis by (simp add: indexOf_from)
qed

lemma bytes_of_111: "bytes_of ''111 0 obj'' = [49, 49, 49, 32, 48, 32, 111, 98, 106]"
  by (simp add: bytes_of_def)

lemma bytes_of_stream: "bytes_of ''stream\<newline>'' = [115, 116, 114, 101, 97, 109, 10]"
  by (simp add: bytes_of_def)

lemma bytes_of_endstream:
  "bytes_of ''\<newline>endstream'' = [10, 101, 110, 100, 115, 116, 114, 101, 97, 109]"
  by (simp add: bytes_of_def)

lemma streamStart_ge: "6 \<le> streamStart pdfData"
  using indexOf_ge [of "bytes_of ''stream\<newline>''" pdfData "obj111Start pdfData"]
  by (simp add: streamStart_def bytes_of_stream)

lemma exit_run:
  "obj111Start pdfData = -1 \<or> endstreamPos pdfData = -1 \<Longrightarrow>
     final_extract inflateSync pdfData =
       \<lparr>written = [], report = ''Could not find Object 111 boundaries'', ending = Exit 1\<rparr>"
  by (auto simp: final_extract_def)

lemma located_run:
  "obj111Start pdfData \<noteq> -1 \<Longrightarrow> endstreamPos pdfData \<noteq> -1 \<Longrightarrow>
     final_extract inflateSync pdfData =
       recover inflateSync (subarray pdfData (streamStart pdfData) (endstreamPos pdfData))"
  using streamStart_ge [of pdfData] by (auto simp: final_extract_def)

lemmas locate_defs =
  obj111Start_def streamStart_def endstreamPos_def indexOf_def indexOfOffset_def
  subarray_def clamp_index_def bytes_of_def

section \<open>The extraction script: failures\<close>

text \<open>
  Claim C7. When the buffer holds no declaration of the expected object, that is when the
  text \<^verbatim>\<open>111 0 obj\<close> occurs nowhere in it, the run reports that the boundaries of
  object 111 could not be found, writes no file and ends with \<^verbatim>\<open>process.exit(1)\<close>.
\<close>

theorem missing_object_exits:
  assumes "\<not> sublist (bytes_of ''111 0 obj'') pdfData"
  shows "final_extract inflateSync pdfData =
           \<lparr>written = [], report = ''Could not find Object 111 boundaries'', ending = Exit 1\<rparr>"
proof -
  have "obj111Start pdfData = -1"
    unfolding obj111Start_def using assms by (intro indexOf_absent) (simp_all add: bytes_of_111)
  then show ?thesis by (simp add: exit_run)
qed

theorem missing_object_exits_witness:
  "\<not> sublist (bytes_of ''111 0 obj'') sample_pdf \<and>
   final_extract sample_inflateSync sample_pdf =
     \<lparr>written = [], report = ''Could not find Object 111 boundaries'', ending = Exit 1\<rparr>"
proof -
  have absent: "\<not> sublist (bytes_of ''111 0 obj'') sample_pdf"
    by (simp add: sample_pdf_def bytes_of_def sublist_Cons_right)
  from absent missing_object_exits [OF absent, of sample_inflateSync] show ?thesis by simp
qed

text \<open>
  Claim C8. When the located stream slice begins with \<open>0x78\<close> and the inflater throws,
  the error is caught: the run writes the slice, still compressed, to
  \<^verbatim>\<open>raw_stream.bin\<close>, reports the failure with the inflater's message, and runs to its
  end; no exception leaves the script.
\<close>

theorem decompression_failure_caught:
  assumes "obj111Start pdfData \<noteq> -1" and "endstreamPos pdfData \<noteq> -1"
    and "streamData = subarray pdfData (streamStart pdfData) (endstreamPos pdfData)"
    and "byte_at streamData 0 = Some 0x78"
    and "inflateSync streamData = Inl message"
  shows "final_extract inflateSync pdfData =
           \<lparr>written = [(''raw_stream.bin'', streamData)],
            report = ''Decompression failed: '' @ message,
            ending = Completed\<rparr>"
  using assms by (simp add: located_run recover_def)

lemma truncated_obj111Start: "obj111Start truncated_pdf = 0"
  by (simp add: truncated_pdf_def locate_defs)

lemma truncated_streamStart: "streamStart truncated_pdf = 54"
  by (simp add: truncated_pdf_def locate_defs)

lemma truncated_endstreamPos: "endstreamPos truncated_pdf = 55"
  by (simp add: truncated_pdf_def locate_defs)

lemma truncated_slice: "subarray truncated_pdf 54 55 = [0x78]"
  by (simp add: truncated_pdf_def locate_defs)

theorem decompression_failure_caught_witness:
  "obj111Start truncated_pdf \<noteq> -1 \<and> endstreamPos truncated_pdf \<noteq> -1 \<and>
   [0x78] = subarray truncated_pdf (streamStart truncated_pdf) (endstreamPos truncated_pdf) \<and>
   byte_at [0x78] 0 = Some 0x78 \<and>
   sample_inflateSync [0x78] = Inl ''unexpected end of file'' \<and>
   final_extract sample_inflateSync truncated_pdf =
     \<lparr>written = [(''raw_stream.bin'', [0x78])],
      report = ''Decompression failed: '' @ ''unexpected end of file'',
      ending = Completed\<rparr>"
proof -
  have 1: "obj111Start truncated_pdf \<noteq> -1" by (simp add: truncated_obj111Start)
  have 2: "endstreamPos truncated_pdf \<noteq> -1" by (simp add: truncated_endstreamPos)
  have 3: "[0x78] = subarray truncated_pdf (streamStart truncated_pdf) (endstreamPos truncated_pdf)"
    by (simp add: truncated_streamStart truncated_endstreamPos truncated_slice)
  have 4: "byte_at [0x78] 0 = Some 0x78" by (simp add: byte_at_def)
  have 5: "sample_inflateSync [0x78] = Inl ''unexpected end of file''"
    by (simp add: sample_inflateSync_def sample_zlib_def)
  from decompression_failure_caught
         [of truncated_pdf "[0x78]" sample_inflateSync "''unexpected end of file''", OF 1 2 3 4 5]
       1 2 3 4 5
  show ?thesis by simp
qed

text \<open>
  Claim C9, at an empty slice. The script prints the first byte of the slice with
  \<^verbatim>\<open>streamData[0].toString(16)\<close> before it saves the slice; on an empty slice that
  byte is \<^verbatim>\<open>undefined\<close>, the call throws a \<^verbatim>\<open>TypeError\<close> that nothing catches, and no
  diagnostic file is written.
\<close>

theorem empty_slice_crashes:
  "final_extract inflateSync empty_stream_pdf =
     \<lparr>written = [], report = ''Data is not zlib compressed'',
      ending = Uncaught (TypeError ''Cannot read properties of undefined (reading 'toString')'')\<rparr>"
  by (simp add: final_extract_def empty_stream_pdf_def locate_defs recover_def byte_at_def)

text \<open>
  Claim C3, at a buffer without the marker \<^verbatim>\<open>stream\<close> followed by a line feed. The
  script adds 7 to the answer of \<^verbatim>\<open>indexOf\<close> before it compares with \<open>-1\<close>, so a
  missing marker gives the stream start 6, the test for \<open>-1\<close> never fires, and the run
  goes on with the bytes from offset 6 up to the end marker.
\<close>

theorem missing_stream_marker_not_detected:
  "\<not> sublist (bytes_of ''stream\<newline>'') no_stream_marker_pdf \<and>
   final_extract inflateSync no_stream_marker_pdf =
     \<lparr>written = [(''raw_stream.bin'', bytes_of ''obj\<newline><< >> stream x'')],
      report = ''Data is not zlib compressed'', ending = Completed\<rparr>"
  by (simp add: final_extract_def no_stream_marker_pdf_def locate_defs recover_def byte_at_def
        sublist_Cons_right)

text \<open>
  The other branches of these two claims do as the specification says: a missing end
  marker ends the run with code 1, and a slice that is not empty and does not begin with
  \<open>0x78\<close> is saved to \<^verbatim>\<open>raw_stream.bin\<close>.
\<close>

lemma missing_endstream_exits:
  assumes "\<not> sublist (bytes_of ''\<newline>endstream'') (drop (nat (streamStart pdfData)) pdfData)"
  shows "final_extract inflateSync pdfData =
           \<lparr>written = [], report = ''Could not find Object 111 boundaries'', ending = Exit 1\<rparr>"
proof -
  from assms have "first_match (bytes_of ''\<newline>endstream'')
                     (drop (nat (streamStart pdfData)) pdfData) = None"
    by (simp add: first_match_None_iff)
  moreover have "0 \<le> streamStart pdfData" using streamStart_ge [of pdfData] by simp
  ultimately have "endstreamPos pdfData = -1"
    by (simp add: endstreamPos_def indexOf_from bytes_of_endstream)
  then show ?thesis by (simp add: exit_run)
qed

lemma wrong_format_saved:
  assumes "obj111Start pdfData \<noteq> -1" and "endstreamPos pdfData \<noteq> -1"
    and "streamData = subarray pdfData (streamStart pdfData) (endstreamPos pdfData)"
    and "byte_at streamData 0 = Some first" and "first \<noteq> 0x78"
  shows "final_extract inflateSync pdfData =
           \<lparr>written = [(''raw_stream.bin'', streamData)],
            report = ''Data is not zlib compressed'', ending = Completed\<rparr>"
  using assms by (simp add: located_run recover_def)

section \<open>The embedding script: object, splice and insertion point\<close>

lemma bytes_of_xref: "bytes_of ''xref'' = [120, 114, 101, 102]"
  by (simp add: bytes_of_def)

lemma newPdfData_splice:
  assumes "0 \<le> xrefPos"
  shows "newPdfData pdfData object xrefPos =
           take (nat xrefPos) pdfData @ object @ drop (nat xrefPos) pdfData"
proof (cases "xrefPos \<le> int (length pdfData)")
  case True
  with assms show ?thesis
    by (simp add: newPdfData_def subarray_def clamp_index_def Let_def min_def)
next
  case False
  with assms show ?thesis
    by (simp add: newPdfData_def subarray_def clamp_index_def Let_def min_def)
qed

text \<open>
  Claim C2. For every buffer, every object and every insertion offset (an offset is not
  negative), the buffer the embedder assembles is the bytes before the offset, then the
  new object, then the bytes from the offset on. So its length grows by the length of
  the object, every byte below the offset is where it was, and every byte at or above
  the offset has moved up by exactly the length of the object.
\<close>

theorem splice_contract:
  assumes "0 \<le> xrefPos"
  shows "newPdfData pdfData object xrefPos =
           take (nat xrefPos) pdfData @ object @ drop (nat xrefPos) pdfData \<and>
         length (newPdfData pdfData object xrefPos) = length pdfData + length object \<and>
         (\<forall>i. i < nat xrefPos \<and> i < length pdfData \<longrightarrow>
              newPdfData pdfData object xrefPos ! i = pdfData ! i) \<and>
         (\<forall>i. nat xrefPos \<le> i \<and> i < length pdfData \<longrightarrow>
              newPdfData pdfData object xrefPos ! (i + length object) = pdfData ! i)"
proof -
  let ?x = "nat xrefPos"
  have eq: "newPdfData pdfData object xrefPos = take ?x pdfData @ object @ drop ?x pdfData"
    using assms by (rule newPdfData_splice)
  have len: "length (newPdfData pdfData object xrefPos) = length pdfData + length object"
    unfolding eq by simp
  have low: "newPdfData pdfData object xrefPos ! i = pdfData ! i"
    if "i < ?x" "i < length pdfData" for i
    unfolding eq using that by (simp add: nth_append)
  have high: "newPdfData pdfData object xrefPos ! (i + length object) = pdfData ! i"
    if "?x \<le> i" "i < length pdfData" for i
  proof -
    let ?pre = "take ?x pdfData @ object"
    have idx: "i + length object = length ?pre + (i - ?x)" using that by simp
    have "(?pre @ drop ?x pdfData) ! (length ?pre + (i - ?x)) = drop ?x pdfData ! (i - ?x)"
      by (rule nth_append_length_plus)
    also have "\<dots> = pdfData ! i" using that by simp
    finally have "(?pre @ drop ?x pdfData) ! (i + length object) = pdfData ! i"
      by (simp only: idx)
    then show ?thesis unfolding eq by simp
  qed
  from eq len low high show ?thesis by blast
qed

theorem splice_contract_witness:
  "(0::int) \<le> 4 \<and>
   newPdfData (bytes_of ''obj xref'') (bytes_of ''NEW'') 4 = bytes_of ''obj NEWxref'' \<and>
   newPdfData (bytes_of ''obj xref'') (bytes_of ''NEW'') 4 ! 2 = bytes_of ''obj xref'' ! 2 \<and>
   newPdfData (bytes_of ''obj xref'') (bytes_of ''NEW'') 4 ! (5 + 3) = bytes_of ''obj xref'' ! 5"
proof -
  let ?out = "newPdfData (bytes_of ''obj xref'') (bytes_of ''NEW'') 4"
  have h: "(0::int) \<le> 4" by simp
  note c = splice_contract [OF h, of "bytes_of ''obj xref''" "bytes_of ''NEW''"]
  from c have eq: "?out = take (nat 4) (bytes_of ''obj xref'') @ bytes_of ''NEW''
                           @ drop (nat 4) (bytes_of ''obj xref'')"
    by blast
  from c have low: "\<forall>i. i < nat 4 \<and> i < length (bytes_of ''obj xref'') \<longrightarrow>
                      ?out ! i = bytes_of ''obj xref'' ! i"
    by blast
  from c have high: "\<forall>i. nat 4 \<le> i \<and> i < length (bytes_of ''obj xref'') \<longrightarrow>
                      ?out ! (i + length (bytes_of ''NEW'')) = bytes_of ''obj xref'' ! i"
    by blast
  from eq have 1: "?out = bytes_of ''obj NEWxref''"
    by (simp add: bytes_of_def)
  from low [rule_format, of 2] have 2: "?out ! 2 = bytes_of ''obj xref'' ! 2"
    by (simp add: bytes_of_def)
  from high [rule_format, of 5] have 3: "?out ! (5 + 3) = bytes_of ''obj xref'' ! 5"
    by (simp add: bytes_of_def)
  from h 1 2 3 show ?thesis by blast
qed

lemma prefix_iff_take: "prefix val b \<longleftrightarrow> take (length val) b = val"
  by (metis append_eq_conv_conj prefix_def append_take_drop_id)

lemma indexOf_first:
  assumes "val \<noteq> []" "sublist val b"
  shows "\<exists>x. indexOf b val 0 = int x \<and> prefix val (drop x b) \<and> (\<forall>j<x. \<not> prefix val (drop j b))"
proof -
  from assms(2) obtain x where "first_match val b = Some x"
    using first_match_None_iff [of val b] by auto
  with first_match_SomeD [OF this] assms(1) show ?thesis
    by (auto simp: indexOf_from)
qed

lemma embed_no_xref:
  assumes "\<not> sublist (bytes_of ''xref'') pdfData"
  shows "embedImageInPDF deflateSync expo pdfData imageData =
           Inl (Error ''XREF table not found - invalid PDF format'')"
proof -
  have "indexOf pdfData (bytes_of ''xref'') 0 = -1"
    using assms by (intro indexOf_absent) (simp_all add: bytes_of_xref)
  then show ?thesis by (simp add: embedImageInPDF_def Let_def)
qed

lemma embed_at_xref:
  assumes "indexOf pdfData (bytes_of ''xref'') 0 = int x"
  shows "embedImageInPDF deflateSync expo pdfData imageData =
           Inr (take x pdfData @ newObject expo (newObjNum pdfData) (deflateSync imageData)
                  @ drop x pdfData, newObjNum pdfData)"
  using assms by (simp add: embedImageInPDF_def Let_def newPdfData_splice)

text \<open>
  Claim C6. When the bytes \<^verbatim>\<open>xref\<close> occur nowhere in the input, the embedder throws
  its error and writes nothing. Otherwise the object is inserted at the first position
  where these four bytes stand, and the number returned is the one assigned.
\<close>

theorem xref_location:
  "(\<not> sublist (bytes_of ''xref'') pdfData \<longrightarrow>
      embedImageInPDF deflateSync expo pdfData imageData =
        Inl (Error ''XREF table not found - invalid PDF format'')) \<and>
   (sublist (bytes_of ''xref'') pdfData \<longrightarrow>
      (\<exists>x. take 4 (drop x pdfData) = bytes_of ''xref'' \<and>
           (\<forall>j<x. take 4 (drop j pdfData) \<noteq> bytes_of ''xref'') \<and>
           embedImageInPDF deflateSync expo pdfData imageData =
             Inr (take x pdfData @ newObject expo (newObjNum pdfData) (deflateSync imageData)
                    @ drop x pdfData, newObjNum pdfData)))"
proof (intro conjI impI)
  assume "\<not> sublist (bytes_of ''xref'') pdfData"
  then show "embedImageInPDF deflateSync expo pdfData imageData =
               Inl (Error ''XREF table not found - invalid PDF format'')"
    by (rule embed_no_xref)
next
  assume "sublist (bytes_of ''xref'') pdfData"
  then obtain x where x: "indexOf pdfData (bytes_of ''xref'') 0 = int x"
      "prefix (bytes_of ''xref'') (drop x pdfData)"
      "\<forall>j<x. \<not> prefix (bytes_of ''xref'') (drop j pdfData)"
    using indexOf_first [of "bytes_of ''xref''" pdfData] by (auto simp: bytes_of_xref)
  have len: "length (bytes_of ''xref'') = 4" by (simp add: bytes_of_def)
  from x(2,3) have "take 4 (drop x pdfData) = bytes_of ''xref''"
    "\<forall>j<x. take 4 (drop j pdfData) \<noteq> bytes_of ''xref''"
    by (simp_all add: prefix_iff_take len)
  with embed_at_xref [OF x(1)]
  show "\<exists>x. take 4 (drop x pdfData) = bytes_of ''xref'' \<and>
           (\<forall>j<x. take 4 (drop j pdfData) \<noteq> bytes_of ''xref'') \<and>
           embedImageInPDF deflateSync expo pdfData imageData =
             Inr (take x pdfData @ newObject expo (newObjNum pdfData) (deflateSync imageData)
                    @ drop x pdfData, newObjNum pdfData)"
    by blast
qed

theorem xref_location_witness:
  "(\<not> sublist (bytes_of ''xref'') no_xref_pdf \<and>
      embedImageInPDF sample_deflateSync sample_expo no_xref_pdf sample_jpeg =
        Inl (Error ''XREF table not found - invalid PDF format'')) \<and>
   (sublist (bytes_of ''xref'') sample_pdf \<and>
      (\<exists>x. take 4 (drop x sample_pdf) = bytes_of ''xref'' \<and>
           (\<forall>j<x. take 4 (drop j sample_pdf) \<noteq> bytes_of ''xref'') \<and>
           embedImageInPDF sample_deflateSync sample_expo sample_pdf sample_jpeg =
             Inr (take x sample_pdf
                    @ newObject sample_expo (newObjNum sample_pdf) (sample_deflateSync sample_jpeg)
                    @ drop x sample_pdf, newObjNum sample_pdf)))"
proof -
  have absent: "\<not> sublist (bytes_of ''xref'') no_xref_pdf"
    by (simp add: no_xref_pdf_def bytes_of_def sublist_Cons_right)
  have present: "sublist (bytes_of ''xref'') sample_pdf"
    by (simp add: sample_pdf_def bytes_of_def sublist_Cons_right)
  from absent present
    xref_location [of no_xref_pdf sample_deflateSync sample_expo sample_jpeg]
    xref_location [of sample_pdf sample_deflateSync sample_expo sample_jpeg]
  show ?thesis by blast
qed


lemma is_digit_char: "d < 10 \<Longrightarrow> is_digit (char_of (48 + d :: nat))"
  by (simp add: is_digit_def)


lemma decimal_digits: "c \<in> set (decimal n) \<Longrightarrow> is_digit c"
proof (induction n rule: decimal.induct)
  case (1 n)
  show ?case
  proof (cases "n < 10")
    case True
    with 1(2) show ?thesis by (simp add: decimal.simps is_digit_char)
  next
    case False
    then have "decimal n = decimal (n div 10) @ [char_of (48 + n mod 10)]"
      by (subst decimal.simps) simp
    with 1 False show ?thesis
      by (auto simp: is_digit_char)
  qed
qed



section \<open>The embedding script: object numbers\<close>

lemma not_digit_space: "\<not> is_digit CHR '' ''"
  by (simp add: is_digit_def)

lemma match_here_iff:
  "match_here s = Some (ds, n) \<longleftrightarrow>
     ds \<noteq> [] \<and> (\<forall>c \<in> set ds. is_digit c) \<and> prefix (ds @ '' 0 obj'') s \<and> n = length ds + 6"
proof
  assume "match_here s = Some (ds, n)"
  then have ds: "ds = takeWhile is_digit s" "ds \<noteq> []" "n = length ds + 6"
    and p: "prefix '' 0 obj'' (dropWhile is_digit s)"
    by (auto simp: match_here_def Let_def split: if_splits)
  from p have "prefix (takeWhile is_digit s @ '' 0 obj'') (takeWhile is_digit s @ dropWhile is_digit s)"
    by (simp only: same_prefix_prefix)
  then have "prefix (ds @ '' 0 obj'') s" by (simp add: ds(1))
  moreover have "\<forall>c \<in> set ds. is_digit c"
    unfolding ds(1) by (auto dest: set_takeWhileD)
  ultimately show "ds \<noteq> [] \<and> (\<forall>c \<in> set ds. is_digit c) \<and> prefix (ds @ '' 0 obj'') s \<and> n = length ds + 6"
    using ds by simp
next
  assume r: "ds \<noteq> [] \<and> (\<forall>c \<in> set ds. is_digit c) \<and> prefix (ds @ '' 0 obj'') s \<and> n = length ds + 6"
  then obtain rest where s: "s = ds @ CHR '' '' # (''0 obj'' @ rest)"
    by (auto simp: prefix_def)
  from r have "takeWhile is_digit s = ds" "dropWhile is_digit s = CHR '' '' # (''0 obj'' @ rest)"
    unfolding s by (simp_all add: takeWhile_append2 dropWhile_append2 not_digit_space)
  with r show "match_here s = Some (ds, n)"
    by (simp add: match_here_def)
qed

lemma matches_from_drop: "matches_from k s = matches_from 0 (drop k s)"
  by (induction k s rule: matches_from.induct) simp_all

lemma scan_None_matches: "scan s = None \<Longrightarrow> matches_from 0 s = []"
  by (induction s) (auto split: option.splits)

lemma scan_Some_matches:
  "scan s = Some (ds, n) \<Longrightarrow> matches_from 0 s = ds # matches_from 0 (drop n s)"
proof (induction s arbitrary: n)
  case Nil
  then show ?case by simp
next
  case (Cons c cs)
  show ?case
  proof (cases "match_here (c # cs)")
    case None
    with Cons.prems obtain k where k: "scan cs = Some (ds, k)" "n = Suc k" by auto
    from Cons.IH [OF k(1)] None k(2) show ?thesis by simp
  next
    case (Some m)
    with Cons.prems have m: "match_here (c # cs) = Some (ds, n)" by simp
    then have "n = length ds + 6" by (simp add: match_here_iff)
    then obtain k where "n = Suc k" by (cases n) auto
    with m show ?thesis
      using matches_from_drop [of k cs] by simp
  qed
qed

lemma loop_foldl:
  "maxObjNum_loop t lastIndex maxObjNum =
     foldl (\<lambda>a ds. max a (parseInt10 ds)) maxObjNum (matches_from 0 (drop lastIndex t))"
proof (induction t lastIndex maxObjNum rule: maxObjNum_loop.induct)
  case (1 t lastIndex maxObjNum)
  show ?case
  proof (cases "objRegex_exec t lastIndex")
    case None
    then have "scan (drop lastIndex t) = None" by (simp add: objRegex_exec_def)
    with None show ?thesis
      by (subst maxObjNum_loop.simps) (simp add: scan_None_matches)
  next
    case (Some m)
    obtain ds lastIndex' where m: "m = (ds, lastIndex')" by (cases m)
    with Some obtain n where n: "scan (drop lastIndex t) = Some (ds, n)" "lastIndex' = lastIndex + n"
      by (auto simp: objRegex_exec_def)
    have "matches_from 0 (drop lastIndex t) = ds # matches_from 0 (drop lastIndex' t)"
      using scan_Some_matches [OF n(1)] n(2) by (simp add: add.commute)
    moreover have "maxObjNum_loop t lastIndex maxObjNum =
        maxObjNum_loop t lastIndex' (if parseInt10 ds > maxObjNum then parseInt10 ds else maxObjNum)"
      using Some m by (subst maxObjNum_loop.simps) (simp add: Let_def)
    moreover have "(if parseInt10 ds > maxObjNum then parseInt10 ds else maxObjNum)
                     = max maxObjNum (parseInt10 ds)"
      by (auto simp: max_def)
    ultimately show ?thesis
      using "1.IH" [OF Some m [symmetric] refl] by simp
  qed
qed

lemma findHighest_foldl:
  "findHighestObjectNumber pdfData =
     foldl (\<lambda>a ds. max a (parseInt10 ds)) 0 (pattern_matches pdfData)"
  by (simp add: findHighestObjectNumber_def pattern_matches_def loop_foldl)
lemma bit_length_2_53: "bit_length (2 ^ 53) = 54"
  by (simp add: bit_length.simps)

lemma to_double_exact: "n \<le> 2 ^ 53 \<Longrightarrow> to_double n = enat n"
proof (cases "n < 2 ^ 53")
  case True
  then show ?thesis by (simp add: to_double_def)
next
  case False
  assume "n \<le> 2 ^ 53"
  with False have n: "n = 2 ^ 53" by simp
  show ?thesis
    unfolding n to_double_def bit_length_2_53 by (simp add: Let_def)
qed

lemma foldl_max_enat:
  "foldl (\<lambda>a ds. max a (enat (f ds))) (enat m) xs = enat (Max (insert m (f ` set xs)))"
proof (induction xs arbitrary: m)
  case Nil
  then show ?case by simp
next
  case (Cons x xs)
  have "max (enat m) (enat (f x)) = enat (max m (f x))" by (simp add: max_def)
  moreover have "Max (insert (max m (f x)) (f ` set xs)) = Max (insert m (insert (f x) (f ` set xs)))"
  proof (cases "xs = []")
    case True
    then show ?thesis by simp
  next
    case False
    then have "f ` set xs \<noteq> {}" "finite (f ` set xs)" by simp_all
    then show ?thesis by (simp add: max.assoc)
  qed
  ultimately show ?case using Cons.IH [of "max m (f x)"] by simp
qed

text \<open>
  Claim C4, for buffers whose matched runs of digits all write numbers below \<open>2 ^ 53\<close>,
  where the arithmetic of JavaScript Numbers is exact. The highest number found is the
  maximum of the matched numbers, or 0 when nothing matches; the new object gets that
  maximum plus one, which is strictly greater than every matched number.
\<close>

theorem object_numbering:
  assumes "\<forall>ds \<in> set (pattern_matches pdfData). decimal_value ds < 2 ^ 53"
  shows "findHighestObjectNumber pdfData =
           enat (Max (insert 0 (decimal_value ` set (pattern_matches pdfData)))) \<and>
         newObjNum pdfData =
           enat (Max (insert 0 (decimal_value ` set (pattern_matches pdfData))) + 1) \<and>
         (\<forall>ds \<in> set (pattern_matches pdfData). enat (decimal_value ds) < newObjNum pdfData)"
proof -
  let ?ms = "pattern_matches pdfData"
  let ?M = "Max (insert 0 (decimal_value ` set ?ms))"
  have parse: "parseInt10 ds = enat (decimal_value ds)" if "ds \<in> set ?ms" for ds
  proof -
    from that assms have "decimal_value ds < 2 ^ 53" by blast
    then show ?thesis by (simp add: parseInt10_def to_double_def)
  qed
  have "foldl (\<lambda>a ds. max a (parseInt10 ds)) 0 ?ms
          = foldl (\<lambda>a ds. max a (enat (decimal_value ds))) 0 ?ms"
    by (rule foldl_cong) (simp_all add: parse)
  then have high: "findHighestObjectNumber pdfData = enat ?M"
    using foldl_max_enat [of decimal_value 0 ?ms]
    by (simp add: findHighest_foldl zero_enat_def)
  have M: "?M < 2 ^ 53"
    using assms by (subst Max_less_iff) auto
  then have "?M + 1 \<le> 2 ^ 53" by linarith
  then have "to_double (?M + 1) = enat (?M + 1)" by (rule to_double_exact)
  then have new: "newObjNum pdfData = enat (?M + 1)"
    by (simp add: newObjNum_def high plus_one_def)
  have "decimal_value ds < ?M + 1" if "ds \<in> set ?ms" for ds
  proof -
    from that have "decimal_value ds \<le> ?M" by (intro Max_ge) auto
    then show ?thesis by simp
  qed
  with high new show ?thesis by simp
qed
lemma matches_from_numeral: "matches_from (numeral k) s = matches_from 0 (drop (numeral k) s)"
  by (rule matches_from_drop)

lemmas scan_defs = match_here_def is_digit_def Let_def matches_from_numeral

lemma huge_matches: "pattern_matches huge_number_pdf = [''9007199254740992'']"
  by (simp add: pattern_matches_def huge_number_pdf_def latin1_bytes_of scan_defs)

lemma huge_value: "decimal_value ''9007199254740992'' = 9007199254740992"
  by (simp add: decimal_value_def digit_value_def)

lemma huge_highest: "findHighestObjectNumber huge_number_pdf = enat 9007199254740992"
  by (simp add: findHighest_foldl huge_matches parseInt10_def huge_value to_double_def
        bit_length.simps Let_def zero_enat_def max_def)

lemma huge_new: "newObjNum huge_number_pdf = enat 9007199254740992"
  by (simp add: newObjNum_def huge_highest plus_one_def to_double_def bit_length.simps Let_def)

text \<open>
  Claim C4 as stated, for every buffer, fails where the numbers leave that range. A
  buffer that declares the object \<open>2 ^ 53 = 9007199254740992\<close> gets a new object with the
  same number: \<open>2 ^ 53 + 1\<close> is not a double and the sum is rounded back to \<open>2 ^ 53\<close>.
\<close>

theorem object_numbering_counterexample:
  "''9007199254740992'' \<in> set (pattern_matches huge_number_pdf) \<and>
   \<not> enat (decimal_value ''9007199254740992'') < newObjNum huge_number_pdf \<and>
   newObjNum huge_number_pdf \<noteq>
     enat (Max (insert 0 (decimal_value ` set (pattern_matches huge_number_pdf))) + 1)"
  by (simp add: huge_matches huge_value huge_new)

lemma sample_110_matches: "pattern_matches sample_pdf_110 = [''1'', ''2'', ''110'']"
  by (simp add: pattern_matches_def sample_pdf_110_def latin1_bytes_of scan_defs)

theorem object_numbering_witness:
  "pattern_matches sample_pdf_110 = [''1'', ''2'', ''110''] \<and>
   decimal_value ''1'' < 2 ^ 53 \<and> decimal_value ''2'' < 2 ^ 53 \<and> decimal_value ''110'' < 2 ^ 53 \<and>
   findHighestObjectNumber sample_pdf_110 = enat 110 \<and>
   newObjNum sample_pdf_110 = enat 111 \<and>
   enat (decimal_value ''1'') < newObjNum sample_pdf_110 \<and>
   enat (decimal_value ''2'') < newObjNum sample_pdf_110 \<and>
   enat (decimal_value ''110'') < newObjNum sample_pdf_110"
proof -
  have h: "\<forall>ds \<in> set (pattern_matches sample_pdf_110). decimal_value ds < 2 ^ 53"
    by (simp add: sample_110_matches decimal_value_def digit_value_def)
  from object_numbering [OF h] h show ?thesis
    by (simp add: sample_110_matches decimal_value_def digit_value_def)
qed

lemma bit_length_lower: "n \<noteq> 0 \<Longrightarrow> 2 ^ (bit_length n - 1) \<le> n"
proof (induction n rule: bit_length.induct)
  case (1 n)
  show ?case
  proof (cases "n div 2 = 0")
    case True
    with 1(2) have "n = 1" by (cases n) auto
    then show ?thesis by (simp add: bit_length.simps)
  next
    case False
    with 1 have ih: "2 ^ (bit_length (n div 2) - 1) \<le> n div 2" by simp
    from False have "bit_length (n div 2) \<noteq> 0" by (subst bit_length.simps) simp
    then obtain k where k: "bit_length (n div 2) = Suc k" by (cases "bit_length (n div 2)") auto
    from 1(2) have "bit_length n = Suc (bit_length (n div 2))" by (subst bit_length.simps) simp
    with k ih have "2 ^ (bit_length n - 1) \<le> 2 * (n div 2)" by simp
    then show ?thesis by linarith
  qed
qed

lemma to_double_ge:
  assumes "m \<le> n" "m < 2 ^ 52"
  shows "enat m \<le> to_double n"
proof (cases "n < 2 ^ 53")
  case True
  with assms show ?thesis by (simp add: to_double_def)
next
  case False
  define e where "e = bit_length n - 53"
  define q where "q = n div 2 ^ e"
  define q' where "q' = (if 2 * (n mod 2 ^ e) > 2 ^ e \<or> (2 * (n mod 2 ^ e) = 2 ^ e \<and> odd q) then q + 1 else q)"
  from False have n0: "n \<noteq> 0" by auto
  have "2 ^ 52 * 2 ^ e \<le> n"
  proof (cases "e = 0")
    case True
    with False show ?thesis by simp
  next
    case False
    then have "bit_length n - 1 = e + 52" by (simp add: e_def)
    with bit_length_lower [OF n0] have "2 ^ (e + 52) \<le> n" by simp
    then show ?thesis by (simp add: power_add mult.commute)
  qed
  then have "2 ^ 52 \<le> q"
    by (simp add: q_def less_eq_div_iff_mult_less_eq)
  moreover have "q \<le> q'" by (simp add: q'_def)
  moreover have "q' \<le> q' * 2 ^ e" by simp
  ultimately have "2 ^ 52 \<le> q' * 2 ^ e" by linarith
  with assms have m: "m \<le> q' * 2 ^ e" by linarith
  have "to_double n = (if q' * 2 ^ e \<ge> 2 ^ 1024 then \<infinity> else enat (q' * 2 ^ e))"
    by (simp only: to_double_def Let_def q'_def q_def e_def False if_False)
  with m show ?thesis by simp
qed

lemma foldl_max_ge_init: "(m::enat) \<le> foldl (\<lambda>a y. max a (f y)) m xs"
proof (induction xs arbitrary: m)
  case Nil
  then show ?case by simp
next
  case (Cons x xs)
  have "m \<le> max m (f x)" by simp
  also have "\<dots> \<le> foldl (\<lambda>a y. max a (f y)) (max m (f x)) xs" by (rule Cons.IH)
  finally show ?case by simp
qed

lemma foldl_max_ge: "x \<in> set xs \<Longrightarrow> (f x :: enat) \<le> foldl (\<lambda>a y. max a (f y)) m xs"
proof (induction xs arbitrary: m)
  case Nil
  then show ?case by simp
next
  case (Cons y ys)
  show ?case
  proof (cases "x = y")
    case True
    have "f x \<le> max m (f x)" by simp
    also have "\<dots> \<le> foldl (\<lambda>a y. max a (f y)) (max m (f x)) ys" by (rule foldl_max_ge_init)
    finally show ?thesis using True by simp
  next
    case False
    with Cons.prems have "x \<in> set ys" by simp
    from Cons.IH [OF this] show ?thesis by simp
  qed
qed
lemma match_here_inside_None:
  assumes "1 \<le> j" "j \<le> 5"
  shows "match_here (drop j ('' 0 obj'' @ rest)) = None"
proof -
  from assms have "j = 1 \<or> j = 2 \<or> j = 3 \<or> j = 4 \<or> j = 5" by linarith
  then show ?thesis
    by (elim disjE) (simp_all add: match_here_def is_digit_def)
qed

lemma matches_from_finds:
  assumes "match_here (drop q s) = Some (ds, n)" "k \<le> q" "q = 0 \<or> \<not> is_digit (s ! (q - 1))"
  shows "ds \<in> set (matches_from k s)"
  using assms
proof (induction k s arbitrary: q rule: matches_from.induct)
  case (1 k)
  then show ?case by (simp add: match_here_def)
next
  case (2 k c cs)
  then obtain q' where q': "q = Suc q'" by (cases q) auto
  with "2.prems" have "match_here (drop q' cs) = Some (ds, n)" "k \<le> q'" by simp_all
  moreover from "2.prems"(3) q' have "q' = 0 \<or> \<not> is_digit (cs ! (q' - 1))"
    by (cases q') auto
  ultimately show ?case using "2.IH" by simp
next
  case (3 c cs)
  show ?case
  proof (cases "match_here (c # cs)")
    case None
    with "3.prems"(1) obtain q' where q': "q = Suc q'" by (cases q) auto
    with "3.prems" have "match_here (drop q' cs) = Some (ds, n)" by simp
    moreover from "3.prems"(3) q' have "q' = 0 \<or> \<not> is_digit (cs ! (q' - 1))"
      by (cases q') auto
    ultimately have "ds \<in> set (matches_from 0 cs)" using "3.IH"(1) [OF None] by simp
    with None show ?thesis by simp
  next
    case (Some m)
    obtain ds' n' where m: "m = (ds', n')" by (cases m)
    show ?thesis
    proof (cases q)
      case 0
      with "3.prems"(1) Some m show ?thesis by simp
    next
      case (Suc q')
      from Some m have mh: "ds' \<noteq> []" "\<forall>c \<in> set ds'. is_digit c"
        "prefix (ds' @ '' 0 obj'') (c # cs)" "n' = length ds' + 6"
        by (simp_all add: match_here_iff)
      then obtain rest where s: "c # cs = ds' @ '' 0 obj'' @ rest"
        by (auto simp: prefix_def)
      have "n' \<le> q"
      proof (rule ccontr)
        assume "\<not> n' \<le> q"
        with mh(4) have lt: "q < length ds' + 6" by simp
        show False
        proof (cases "q \<le> length ds'")
          case True
          with Suc have "(c # cs) ! (q - 1) = ds' ! (q - 1)" "q - 1 < length ds'"
            unfolding s by (simp_all add: nth_append)
          with mh(2) have "is_digit ((c # cs) ! (q - 1))" by (metis nth_mem)
          with "3.prems"(3) Suc show False by simp
        next
          case False
          define j where "j = q - length ds'"
          with False lt have j: "q = length ds' + j" "1 \<le> j" "j \<le> 5" by simp_all
          have "drop q (c # cs) = drop j ('' 0 obj'' @ rest)"
            unfolding s j(1) by simp
          with match_here_inside_None [OF j(2,3), of rest] "3.prems"(1) show False by simp
        qed
      qed
      with Suc have "n' - 1 \<le> q'" by simp
      moreover from "3.prems"(1) Suc have "match_here (drop q' cs) = Some (ds, n)" by simp
      moreover from "3.prems"(3) Suc have "q' = 0 \<or> \<not> is_digit (cs ! (q' - 1))"
        by (cases q') auto
      ultimately have "ds \<in> set (matches_from (n' - 1) cs)"
        using "3.IH"(2) [OF Some m [symmetric]] by simp
      with Some m show ?thesis by simp
    qed
  qed
qed
lemma digit_run_before:
  obtains a0 d where "a = a0 @ d" "\<forall>c \<in> set d. is_digit c" "a0 = [] \<or> \<not> is_digit (last a0)"
proof
  let ?r = "rev a"
  show "a = rev (dropWhile is_digit ?r) @ rev (takeWhile is_digit ?r)"
    by (metis rev_append rev_rev_ident takeWhile_dropWhile_id)
  show "\<forall>c \<in> set (rev (takeWhile is_digit ?r)). is_digit c"
    by (auto dest: set_takeWhileD)
  show "rev (dropWhile is_digit ?r) = [] \<or> \<not> is_digit (last (rev (dropWhile is_digit ?r)))"
  proof (cases "dropWhile is_digit ?r = []")
    case True
    then show ?thesis by simp
  next
    case False
    then have "\<not> is_digit (hd (dropWhile is_digit ?r))" by (rule hd_dropWhile)
    then show ?thesis by (simp add: last_rev)
  qed
qed

lemma decimal_value_append_111: "111 \<le> decimal_value (d @ ''111'')"
  by (simp add: decimal_value_def digit_value_def)

lemma declared_111_matched:
  assumes "sublist ''111 0 obj'' t"
  shows "\<exists>ds \<in> set (matches_from 0 t). 111 \<le> decimal_value ds"
proof -
  from assms obtain a b where t: "t = a @ ''111 0 obj'' @ b" by (auto simp: sublist_def)
  obtain a0 d where a: "a = a0 @ d" "\<forall>c \<in> set d. is_digit c" "a0 = [] \<or> \<not> is_digit (last a0)"
    by (rule digit_run_before)
  let ?ds = "d @ ''111''"
  have dr: "drop (length a0) t = ?ds @ '' 0 obj'' @ b" by (simp add: t a(1))
  have m: "match_here (drop (length a0) t) = Some (?ds, length ?ds + 6)"
    unfolding dr match_here_iff using a(2) by (auto simp: is_digit_def)
  have g: "length a0 = 0 \<or> \<not> is_digit (t ! (length a0 - 1))"
  proof (cases "a0 = []")
    case True
    then show ?thesis by simp
  next
    case False
    then have "t ! (length a0 - 1) = last a0"
      by (simp add: t a(1) nth_append last_conv_nth)
    with a(3) False show ?thesis by simp
  qed
  have "?ds \<in> set (matches_from 0 t)"
    by (rule matches_from_finds [OF m _ g]) simp
  with decimal_value_append_111 [of d] show ?thesis by blast
qed

lemma declared_111_highest:
  assumes "sublist (bytes_of ''111 0 obj'') pdfData"
  shows "enat 111 \<le> findHighestObjectNumber pdfData"
proof -
  from assms have "sublist (latin1 (bytes_of ''111 0 obj'')) (latin1 pdfData)"
    unfolding latin1_def by (rule map_mono_sublist)
  then have "sublist ''111 0 obj'' (latin1 pdfData)" by (simp only: latin1_bytes_of)
  then obtain ds where ds: "ds \<in> set (pattern_matches pdfData)" "111 \<le> decimal_value ds"
    unfolding pattern_matches_def using declared_111_matched by blast
  from ds(2) have "enat 111 \<le> parseInt10 ds"
    unfolding parseInt10_def by (intro to_double_ge) simp_all
  also have "\<dots> \<le> findHighestObjectNumber pdfData"
    unfolding findHighest_foldl using ds(1) by (rule foldl_max_ge)
  finally show ?thesis .
qed

section \<open>Embedding, then extracting\<close>

lemma bytes_of_append: "bytes_of (a @ b) = bytes_of a @ bytes_of b"
  by (simp add: bytes_of_def)

lemma sublist_bytes_of: "sublist (bytes_of a) (bytes_of b) \<Longrightarrow> sublist a b"
proof -
  assume "sublist (bytes_of a) (bytes_of b)"
  then have "sublist (latin1 (bytes_of a)) (latin1 (bytes_of b))"
    unfolding latin1_def by (rule map_mono_sublist)
  then show ?thesis by (simp only: latin1_bytes_of)
qed

lemma first_match_at_boundary:
  assumes "val \<noteq> []" "prefix val post" "\<not> sublist val pre" "last val \<notin> set (butlast val)"
  shows "first_match val (pre @ post) = Some (length pre)"
proof (rule first_match_SomeI)
  show "prefix val (drop (length pre) (pre @ post))" using assms(2) by simp
  show "length pre \<le> length (pre @ post)" by simp
  show "\<forall>j<length pre. \<not> prefix val (drop j (pre @ post))"
  proof (intro allI impI notI)
    fix j
    assume j: "j < length pre" and p: "prefix val (drop j (pre @ post))"
    let ?u = "drop j pre"
    from j have u: "?u \<noteq> []" by simp
    from j p have "prefix val (?u @ post)" by simp
    then consider "prefix val ?u" | us where "val = ?u @ us" "prefix us post"
      by (auto simp: prefix_append)
    then show False
    proof cases
      case 1
      then have "sublist val ?u" by (rule prefix_imp_sublist)
      moreover have "sublist ?u pre" by (rule sublist_drop)
      ultimately have "sublist val pre" by (rule sublist_order.order_trans)
      with assms(3) show False by simp
    next
      case 2
      show False
      proof (cases "us = []")
        case True
        with 2(1) have "val = ?u" by simp
        then have "sublist val pre" by (metis sublist_drop)
        with assms(3) show False by simp
      next
        case False
        from 2(1) u have "length us \<le> length val" by simp
        with 2(2) assms(2) have "prefix us val" by (rule prefix_length_prefix)
        then obtain w where w: "val = us @ w" by (auto simp: prefix_def)
        with 2(1) u have "w \<noteq> []" by auto
        with w have "butlast val = us @ butlast w" by (simp add: butlast_append)
        then have "set us \<subseteq> set (butlast val)" by simp
        moreover from 2(1) False have "last val = last us" by simp
        moreover from False have "last us \<in> set us" by simp
        ultimately show False using assms(4) by auto
      qed
    qed
  qed
qed

lemma subarray_slice:
  "subarray (a @ c @ b) (int (length a)) (int (length a + length c)) = c"
  by (simp add: subarray_def clamp_index_def Let_def min_def)
lemma not_digit_s: "\<not> is_digit CHR ''s''"
  by (simp add: is_digit_def)

lemma header_without_stream:
  "\<not> sublist ''stream\<newline>''
       (''111 0 obj\<newline><< /Length '' @ decimal L @ '' /Filter /FlateDecode >>\<newline>'')"
proof
  assume "sublist ''stream\<newline>''
            (''111 0 obj\<newline><< /Length '' @ decimal L @ '' /Filter /FlateDecode >>\<newline>'')"
  then have "set ''stream\<newline>''
               \<subseteq> set (''111 0 obj\<newline><< /Length '' @ decimal L @ '' /Filter /FlateDecode >>\<newline>'')"
    by (rule set_mono_sublist)
  then have "CHR ''s'' \<in> set (decimal L)" by auto
  then show False using decimal_digits not_digit_s by blast
qed

lemma locate_embedded:
  fixes pre C rest :: buffer and L :: nat
  defines "h0 \<equiv> bytes_of (''111 0 obj\<newline><< /Length '' @ decimal L @ '' /Filter /FlateDecode >>\<newline>'')"
  defines "b \<equiv> pre @ h0 @ bytes_of ''stream\<newline>'' @ C @ bytes_of ''\<newline>endstream'' @ rest"
  assumes pre: "\<not> sublist (bytes_of ''111 0 obj'') pre"
    and C: "\<not> sublist (bytes_of ''\<newline>endstream'') C"
  shows "obj111Start b = int (length pre)"
    and "streamStart b = int (length pre + length h0 + 7)"
    and "endstreamPos b = int (length pre + length h0 + 7 + length C)"
proof -
  let ?sm = "bytes_of ''stream\<newline>''" and ?es = "bytes_of ''\<newline>endstream''"
  have "h0 = bytes_of ''111 0 obj'' @ bytes_of (''\<newline><< /Length '' @ decimal L @ '' /Filter /FlateDecode >>\<newline>'')"
    unfolding h0_def bytes_of_append [symmetric] by simp
  then have "prefix (bytes_of ''111 0 obj'') (h0 @ ?sm @ C @ ?es @ rest)"
    by (simp add: prefix_def)
  with pre have "first_match (bytes_of ''111 0 obj'') b = Some (length pre)"
    unfolding b_def by (intro first_match_at_boundary) (simp_all add: bytes_of_111)
  then show o: "obj111Start b = int (length pre)"
    by (simp add: obj111Start_def indexOf_from bytes_of_111)
  have "\<not> sublist ?sm h0"
    unfolding h0_def using header_without_stream sublist_bytes_of by blast
  then have "first_match ?sm (h0 @ ?sm @ C @ ?es @ rest) = Some (length h0)"
    by (intro first_match_at_boundary) (simp_all add: bytes_of_stream)
  moreover have "drop (length pre) b = h0 @ ?sm @ C @ ?es @ rest" by (simp add: b_def)
  ultimately show s: "streamStart b = int (length pre + length h0 + 7)"
    by (simp add: streamStart_def o indexOf_from bytes_of_stream)
  have "first_match ?es (C @ ?es @ rest) = Some (length C)"
    using C by (intro first_match_at_boundary) (simp_all add: bytes_of_endstream)
  moreover have "drop (length pre + length h0 + 7) b = C @ ?es @ rest"
  proof -
    have "b = (pre @ h0 @ ?sm) @ (C @ ?es @ rest)" by (simp add: b_def)
    moreover have "length (pre @ h0 @ ?sm) = length pre + length h0 + 7"
      by (simp add: bytes_of_stream)
    ultimately show ?thesis by (metis append_eq_conv_conj)
  qed
  ultimately show "endstreamPos b = int (length pre + length h0 + 7 + length C)"
    by (simp add: endstreamPos_def s indexOf_from bytes_of_endstream nat_add_distrib)
qed
lemma decimal_111: "decimal 111 = ''111''"
  by (simp add: decimal.simps char_of_eq_iff)

lemma plus_one_110: "plus_one (enat 110) = enat 111"
  by (simp add: plus_one_def to_double_def)

text \<open>
  Claim C1, as the code supports it. The extraction script looks for object 111 only, so
  the round trip needs an input whose highest object number is 110. Then, for an input
  with an \<^verbatim>\<open>xref\<close>, a compressed payload that begins with \<open>0x78\<close> and does not contain
  a line feed followed by \<^verbatim>\<open>endstream\<close>, an inflater that undoes the deflater on the
  image, and an image that begins with \<open>0xFF 0xD8\<close>: running the extraction script on
  what the embedding script wrote recovers the image byte for byte, in
  \<^verbatim>\<open>final_recovered.jpg\<close>.
\<close>

theorem round_trip_object_111:
  assumes xref: "sublist (bytes_of ''xref'') pdfData"
    and highest: "findHighestObjectNumber pdfData = enat 110"
    and head: "byte_at (deflateSync imageData) 0 = Some 0x78"
    and payload: "\<not> sublist (bytes_of ''\<newline>endstream'') (deflateSync imageData)"
    and codec: "inflateSync (deflateSync imageData) = Inr imageData"
    and jpeg: "byte_at imageData 0 = Some 0xFF" "byte_at imageData 1 = Some 0xD8"
  shows "embed_then_extract deflateSync expo inflateSync pdfData imageData =
           Inr \<lparr>written = [(''final_recovered.jpg'', imageData)],
                report = ''SUCCESS! Hidden image successfully extracted!'',
                ending = Completed\<rparr>"
proof -
  define C where "C = deflateSync imageData"
  define h0 where "h0 = bytes_of (''111 0 obj\<newline><< /Length '' @ decimal (length C)
                                    @ '' /Filter /FlateDecode >>\<newline>'')"
  let ?sm = "bytes_of ''stream\<newline>''" and ?es = "bytes_of ''\<newline>endstream''"
  from xref obtain x where x: "indexOf pdfData (bytes_of ''xref'') 0 = int x"
    using indexOf_first [of "bytes_of ''xref''" pdfData] by (auto simp: bytes_of_xref)
  define pre where "pre = take x pdfData"
  define rest where "rest = bytes_of ''\<newline>endobj\<newline>'' @ drop x pdfData"
  define b where "b = pre @ h0 @ ?sm @ C @ ?es @ rest"
  have num: "newObjNum pdfData = enat 111"
    by (simp add: newObjNum_def highest plus_one_110)
  have "objHeader expo (enat 111) C =
          (''111 0 obj\<newline><< /Length '' @ decimal (length C) @ '' /Filter /FlateDecode >>\<newline>'')
            @ ''stream\<newline>''"
    by (simp add: objHeader_def number_toString_def decimal_111)
  then have "newObject expo (enat 111) C = h0 @ ?sm @ C @ ?es @ bytes_of ''\<newline>endobj\<newline>''"
    by (simp add: newObject_def objFooter_def bytes_of_def h0_def)
  with embed_at_xref [OF x, of deflateSync expo imageData]
  have embed: "embedImageInPDF deflateSync expo pdfData imageData = Inr (b, enat 111)"
    by (simp add: num b_def pre_def rest_def C_def)
  have pre: "\<not> sublist (bytes_of ''111 0 obj'') pre"
  proof
    assume "sublist (bytes_of ''111 0 obj'') pre"
    moreover have "sublist pre pdfData" unfolding pre_def by (rule sublist_take)
    ultimately have "sublist (bytes_of ''111 0 obj'') pdfData"
      by (rule sublist_order.order_trans)
    from declared_111_highest [OF this] highest show False by simp
  qed
  from payload have C: "\<not> sublist ?es C" by (simp add: C_def)
  note loc = locate_embedded [OF pre C, of "length C" rest, folded h0_def, folded b_def]
  from loc have "obj111Start b \<noteq> -1" "endstreamPos b \<noteq> -1" by simp_all
  then have "final_extract inflateSync b =
               recover inflateSync (subarray b (streamStart b) (endstreamPos b))"
    by (rule located_run)
  also have "subarray b (streamStart b) (endstreamPos b) =
               subarray b (int (length pre + length h0 + 7))
                          (int (length pre + length h0 + 7 + length C))"
    by (simp only: loc)
  also have "\<dots> = C"
  proof -
    have beq: "(pre @ h0 @ ?sm) @ C @ (?es @ rest) = b" by (simp add: b_def)
    have len: "length (pre @ h0 @ ?sm) = length pre + length h0 + 7"
      by (simp add: bytes_of_stream)
    have "subarray ((pre @ h0 @ ?sm) @ C @ (?es @ rest)) (int (length (pre @ h0 @ ?sm)))
            (int (length (pre @ h0 @ ?sm) + length C)) = C"
      by (rule subarray_slice)
    then show ?thesis unfolding len beq .
  qed
  also have "recover inflateSync C =
               \<lparr>written = [(''final_recovered.jpg'', imageData)],
                report = ''SUCCESS! Hidden image successfully extracted!'',
                ending = Completed\<rparr>"
    using head codec jpeg by (simp add: recover_def C_def)
  finally show ?thesis
    by (simp add: embed_then_extract_def embed)
qed
lemma sample_matches: "pattern_matches sample_pdf = [''1'', ''2'']"
  by (simp add: pattern_matches_def sample_pdf_def latin1_bytes_of scan_defs)

lemma sample_new: "newObjNum sample_pdf = enat 3"
  by (simp add: newObjNum_def findHighest_foldl sample_matches parseInt10_def decimal_value_def
        digit_value_def to_double_def plus_one_def zero_enat_def max_def)

lemma sample_xref: "indexOf sample_pdf (bytes_of ''xref'') 0 = int 110"
  by (simp add: sample_pdf_def locate_defs)

lemma sample_embed:
  "embedImageInPDF sample_deflateSync sample_expo sample_pdf sample_jpeg =
     Inr (sample_modified, enat 3)"
  using embed_at_xref [OF sample_xref, of sample_deflateSync sample_expo sample_jpeg]
  by (simp add: sample_new sample_modified_def sample_deflateSync_def)

lemma sample_modified_no_111: "\<not> sublist (bytes_of ''111 0 obj'') sample_modified"
  by (simp add: sample_modified_def sample_pdf_def newObject_def objHeader_def objFooter_def
        number_toString_def decimal.simps char_of_eq_iff sample_zlib_def bytes_of_def
        sublist_Cons_right)

lemma sample_codec: "sample_inflateSync (sample_deflateSync sample_jpeg) = Inr sample_jpeg"
  by (simp add: sample_inflateSync_def sample_deflateSync_def)

lemma sample_jpeg_magic: "byte_at sample_jpeg 0 = Some 0xFF \<and> byte_at sample_jpeg 1 = Some 0xD8"
  by (simp add: byte_at_def sample_jpeg_def)

lemma no_declaration_exits:
  assumes "\<not> sublist (bytes_of ''111 0 obj'') pdfData"
  shows "obj111Start pdfData = -1"
    and "final_extract inflateSync pdfData =
           \<lparr>written = [], report = ''Could not find Object 111 boundaries'', ending = Exit 1\<rparr>"
proof -
  show "obj111Start pdfData = -1"
    unfolding obj111Start_def using assms by (intro indexOf_absent) (simp_all add: bytes_of_111)
  then show "final_extract inflateSync pdfData =
           \<lparr>written = [], report = ''Could not find Object 111 boundaries'', ending = Exit 1\<rparr>"
    by (simp add: exit_run)
qed

text \<open>
  Claim C1 as stated, for every well-formed PDF, fails: the first sample file has the
  objects 1 and 2, the image is embedded as object 3, and the extraction script, which
  looks for object 111, finds nothing and exits with code 1 although the image begins
  with \<open>0xFF 0xD8\<close> and the inflater undoes the deflater.
\<close>

theorem round_trip_counterexample:
  "byte_at sample_jpeg 0 = Some 0xFF \<and> byte_at sample_jpeg 1 = Some 0xD8 \<and>
   sample_inflateSync (sample_deflateSync sample_jpeg) = Inr sample_jpeg \<and>
   embed_then_extract sample_deflateSync sample_expo sample_inflateSync sample_pdf sample_jpeg =
     Inr \<lparr>written = [], report = ''Could not find Object 111 boundaries'', ending = Exit 1\<rparr>"
  using sample_jpeg_magic sample_codec
  by (simp add: embed_then_extract_def sample_embed
        no_declaration_exits(2) [OF sample_modified_no_111])

lemma sample_110_highest: "findHighestObjectNumber sample_pdf_110 = enat 110"
  by (simp add: findHighest_foldl sample_110_matches parseInt10_def decimal_value_def
        digit_value_def to_double_def zero_enat_def max_def)

theorem round_trip_object_111_witness:
  "sublist (bytes_of ''xref'') sample_pdf_110 \<and>
   findHighestObjectNumber sample_pdf_110 = enat 110 \<and>
   byte_at (sample_deflateSync sample_jpeg) 0 = Some 0x78 \<and>
   \<not> sublist (bytes_of ''\<newline>endstream'') (sample_deflateSync sample_jpeg) \<and>
   sample_inflateSync (sample_deflateSync sample_jpeg) = Inr sample_jpeg \<and>
   byte_at sample_jpeg 0 = Some 0xFF \<and> byte_at sample_jpeg 1 = Some 0xD8 \<and>
   embed_then_extract sample_deflateSync sample_expo sample_inflateSync sample_pdf_110 sample_jpeg =
     Inr \<lparr>written = [(''final_recovered.jpg'', sample_jpeg)],
          report = ''SUCCESS! Hidden image successfully extracted!'',
          ending = Completed\<rparr>"
proof -
  have 1: "sublist (bytes_of ''xref'') sample_pdf_110"
    by (simp add: sample_pdf_110_def bytes_of_def sublist_Cons_right)
  have 3: "byte_at (sample_deflateSync sample_jpeg) 0 = Some 0x78"
    by (simp add: byte_at_def sample_deflateSync_def sample_zlib_def)
  have 4: "\<not> sublist (bytes_of ''\<newline>endstream'') (sample_deflateSync sample_jpeg)"
    by (simp add: sample_deflateSync_def sample_zlib_def bytes_of_def sublist_Cons_right)
  from sample_jpeg_magic have 6: "byte_at sample_jpeg 0 = Some 0xFF"
    and 7: "byte_at sample_jpeg 1 = Some 0xD8" by simp_all
  from round_trip_object_111
         [of sample_pdf_110 sample_deflateSync sample_jpeg sample_inflateSync sample_expo,
          OF 1 sample_110_highest 3 4 sample_codec 6 7]
    1 sample_110_highest 3 4 sample_codec 6 7
  show ?thesis by blast
qed



end
